theory Spec2Isabelle
  imports Main "HOL-Library.Word"
begin

unbundle bit_operations_syntax

section \<open>The Feiyu gimbal wire protocol (fyproto.py)\<close>

text \<open>
  A shallow embedding of \<^verbatim>\<open>fyproto.py\<close>: the frame format table, \<^verbatim>\<open>Packet\<close> with its
  \<^verbatim>\<open>crc\<close> and \<^verbatim>\<open>pack\<close> methods, and the extraction loop of \<^verbatim>\<open>PacketReceiver.parse\<close>.
  Python integers are \<open>int\<close>, a \<^verbatim>\<open>bytes\<close> object is a list of 8-bit words, every
  exception the code can raise is a value of \<open>error\<close>.
\<close>

type_synonym byte = "8 word"

datatype error = ValueError | StructError | KeyError | IndexError

subsection \<open>The standard library functions the module calls\<close>

text \<open>
  \<^verbatim>\<open>struct\<close>: only the unsigned codes \<^verbatim>\<open>B\<close> (1 byte) and \<^verbatim>\<open>H\<close> (2 bytes) occur, always
  little-endian and unpadded. \<^verbatim>\<open>struct.pack\<close> raises \<^verbatim>\<open>struct.error\<close> when a value does
  not fit its field or the number of values is wrong; \<^verbatim>\<open>struct.unpack\<close> raises it when
  the buffer has not exactly the size of the format.
\<close>

datatype fmt_code = Fmt_B | Fmt_H

fun code_size :: "fmt_code \<Rightarrow> nat" where
  "code_size Fmt_B = 1"
| "code_size Fmt_H = 2"

fun calcsize :: "fmt_code list \<Rightarrow> nat" where
  "calcsize [] = 0"
| "calcsize (c # cs) = code_size c + calcsize cs"

fun le_bytes :: "nat \<Rightarrow> int \<Rightarrow> byte list" where
  "le_bytes 0 v = []"
| "le_bytes (Suc n) v = word_of_int v # le_bytes n (v div 256)"

fun le_uint :: "byte list \<Rightarrow> int" where
  "le_uint [] = 0"
| "le_uint (b # bs) = uint b + 256 * le_uint bs"

fun struct_pack :: "fmt_code list \<Rightarrow> int list \<Rightarrow> error + byte list" where
  "struct_pack [] [] = Inr []"
| "struct_pack (c # cs) (v # vs) =
     (if 0 \<le> v \<and> v < 256 ^ code_size c
      then (case struct_pack cs vs of
              Inl e \<Rightarrow> Inl e
            | Inr bs \<Rightarrow> Inr (le_bytes (code_size c) v @ bs))
      else Inl StructError)"
| "struct_pack _ _ = Inl StructError"

fun struct_unpack :: "fmt_code list \<Rightarrow> byte list \<Rightarrow> error + int list" where
  "struct_unpack [] bs = (if bs = [] then Inr [] else Inl StructError)"
| "struct_unpack (c # cs) bs =
     (if length bs < code_size c then Inl StructError
      else (case struct_unpack cs (drop (code_size c) bs) of
              Inl e \<Rightarrow> Inl e
            | Inr vs \<Rightarrow> Inr (le_uint (take (code_size c) bs) # vs)))"

text \<open>A Python slice \<^verbatim>\<open>xs[a:b]\<close> with \<open>0 \<le> a\<close>: it clamps at the end of the sequence.\<close>

definition slice :: "nat \<Rightarrow> nat \<Rightarrow> 'a list \<Rightarrow> 'a list" where
  "slice a b xs = take (b - a) (drop a xs)"

text \<open>
  \<^verbatim>\<open>binascii.crc_hqx(data, value)\<close>: the standard library documents it as the 16-bit CRC
  with the CRC-CCITT polynomial \<open>x^16 + x^12 + x^5 + 1\<close> (0x1021), starting from \<^verbatim>\<open>value\<close>.
  The register is shifted left, most significant bit first, nothing is reflected and
  nothing is XORed into the result.
\<close>

definition crc_shift :: "16 word \<Rightarrow> 16 word" where
  "crc_shift c = (if bit c 15 then push_bit 1 c XOR 0x1021 else push_bit 1 c)"

definition crc_update :: "16 word \<Rightarrow> byte \<Rightarrow> 16 word" where
  "crc_update c b = (crc_shift ^^ 8) (c XOR push_bit 8 (ucast b))"

definition crc_hqx :: "byte list \<Rightarrow> int \<Rightarrow> int" where
  "crc_hqx data v = uint (foldl crc_update (word_of_int v) data)"

subsection \<open>The frame format table and Packet\<close>

definition LONG_FORM :: int where
  "LONG_FORM = 0xaa55"

definition SHORT_FORM :: int where
  "SHORT_FORM = 0x5aa5"

record frame_format =
  len_struct :: fmt_code
  initial_crc_value :: int

definition formats :: "int \<rightharpoonup> frame_format" where
  "formats = [LONG_FORM \<mapsto> \<lparr>len_struct = Fmt_H, initial_crc_value = 0xffff\<rparr>,
              SHORT_FORM \<mapsto> \<lparr>len_struct = Fmt_B, initial_crc_value = 0x0000\<rparr>]"

record Packet =
  command :: int
  framing :: int
  target :: int
  data :: "byte list"

text \<open>\<^verbatim>\<open>Packet.__init__(self, command, framing, target, data)\<close>.\<close>

definition Packet_init :: "int \<Rightarrow> int \<Rightarrow> int \<Rightarrow> byte list \<Rightarrow> error + Packet" where
  "Packet_init cmd frm tgt dat =
     (if frm \<notin> dom formats then Inl ValueError
      else Inr \<lparr>command = cmd, framing = frm, target = tgt, data = dat\<rparr>)"

text \<open>\<^verbatim>\<open>Packet.crc(cls, framing, data)\<close>; the subscript raises \<^verbatim>\<open>KeyError\<close> on a missing key.\<close>

definition Packet_crc :: "int \<Rightarrow> byte list \<Rightarrow> error + int" where
  "Packet_crc frm dat =
     (case formats frm of
        None \<Rightarrow> Inl KeyError
      | Some f \<Rightarrow> Inr (crc_hqx dat (initial_crc_value f)))"

text \<open>\<^verbatim>\<open>Packet.pack(self)\<close>, the parts in the order the code builds them.\<close>

definition pack :: "Packet \<Rightarrow> error + byte list" where
  "pack p =
     (case struct_pack [Fmt_B, Fmt_B] [target p, command p] of
        Inl e \<Rightarrow> Inl e
      | Inr part0 \<Rightarrow>
     (case formats (framing p) of
        None \<Rightarrow> Inl KeyError
      | Some f \<Rightarrow>
     (case struct_pack [len_struct f] [int (length (data p))] of
        Inl e \<Rightarrow> Inl e
      | Inr part1 \<Rightarrow>
     (let parts = part0 @ part1 @ data p in
      case Packet_crc (framing p) parts of
        Inl e \<Rightarrow> Inl e
      | Inr c \<Rightarrow>
     (case struct_pack [Fmt_H] [c] of
        Inl e \<Rightarrow> Inl e
      | Inr part3 \<Rightarrow>
     (case struct_pack [Fmt_H] [framing p] of
        Inl e \<Rightarrow> Inl e
      | Inr marker \<Rightarrow> Inr (marker @ parts @ part3)))))))"

subsection \<open>PacketReceiver\<close>

text \<open>
  The receiver's only state is \<^verbatim>\<open>self.buffer\<close>. \<^verbatim>\<open>parse\<close> is a generator; the model is
  the generator run to exhaustion: the buffer it leaves, what it yielded and printed, in
  order, and the exception that ended it, if any.
\<close>

datatype event = Yielded Packet | Crc_mismatch int int

datatype step = Break | Continue "byte list" "event list" | Raise error "byte list"

text \<open>One pass through the body of the \<^verbatim>\<open>while\<close> loop, entered with \<open>2 \<le> length buffer\<close>.\<close>

definition loop_body :: "byte list \<Rightarrow> step" where
  "loop_body buffer =
     (case struct_unpack [Fmt_H] (slice 0 2 buffer) of
        Inl e \<Rightarrow> Raise e buffer
      | Inr [] \<Rightarrow> Raise IndexError buffer
      | Inr (frm # _) \<Rightarrow>
     (case formats frm of
        None \<Rightarrow> Continue (drop 1 buffer) []
      | Some f \<Rightarrow>
     (let header_format = [Fmt_B, Fmt_B, len_struct f];
          header_len = calcsize header_format;
          header = slice 2 (2 + header_len) buffer
      in if length buffer < header_len + 4 then Break
      else
     (case struct_unpack header_format header of
        Inl e \<Rightarrow> Raise e buffer
      | Inr [tgt, cmd, data_len] \<Rightarrow>
          if int (length buffer) < int header_len + data_len + 4 then Break
          else
           (let n = nat data_len;
                dat = slice (2 + header_len) (2 + header_len + n) buffer;
                rx = struct_unpack [Fmt_H]
                       (slice (2 + header_len + n) (4 + header_len + n) buffer);
                buffer' = drop (4 + header_len + n) buffer
            in case rx of
                 Inl e \<Rightarrow> Raise e buffer
               | Inr [] \<Rightarrow> Raise IndexError buffer
               | Inr (rx_crc # _) \<Rightarrow>
                (case Packet_crc frm (header @ dat) of
                   Inl e \<Rightarrow> Raise e buffer'
                 | Inr calc_crc \<Rightarrow>
                     if rx_crc \<noteq> calc_crc
                     then Continue buffer' [Crc_mismatch rx_crc calc_crc]
                     else (case Packet_init cmd frm tgt dat of
                             Inl e \<Rightarrow> Raise e buffer'
                           | Inr p \<Rightarrow> Continue buffer' [Yielded p])))
      | Inr _ \<Rightarrow> Raise ValueError buffer))))"

text \<open>
  The values the loop body computes from a buffer whose first two bytes are the marker of
  format \<open>f\<close>, under the names of the source's local variables: \<^verbatim>\<open>framing\<close>,
  \<^verbatim>\<open>header_len\<close>, \<^verbatim>\<open>header\<close>, \<^verbatim>\<open>data_len\<close>, \<^verbatim>\<open>data\<close>, \<^verbatim>\<open>rx_crc\<close>, \<^verbatim>\<open>calc_crc\<close> and
  the buffer after the frame was cut off.
\<close>

definition frame_marker :: "byte list \<Rightarrow> int" where
  "frame_marker buffer = le_uint (slice 0 2 buffer)"

definition header_len :: "frame_format \<Rightarrow> nat" where
  "header_len f = calcsize [Fmt_B, Fmt_B, len_struct f]"

definition frame_header :: "frame_format \<Rightarrow> byte list \<Rightarrow> byte list" where
  "frame_header f buffer = slice 2 (2 + header_len f) buffer"

definition frame_data_len :: "frame_format \<Rightarrow> byte list \<Rightarrow> int" where
  "frame_data_len f buffer = le_uint (drop 2 (frame_header f buffer))"

definition frame_data :: "frame_format \<Rightarrow> byte list \<Rightarrow> byte list" where
  "frame_data f buffer =
     slice (2 + header_len f) (2 + header_len f + nat (frame_data_len f buffer)) buffer"

definition frame_rx_crc :: "frame_format \<Rightarrow> byte list \<Rightarrow> int" where
  "frame_rx_crc f buffer =
     le_uint (slice (2 + header_len f + nat (frame_data_len f buffer))
                    (4 + header_len f + nat (frame_data_len f buffer)) buffer)"

definition frame_calc_crc :: "frame_format \<Rightarrow> byte list \<Rightarrow> int" where
  "frame_calc_crc f buffer =
     crc_hqx (frame_header f buffer @ frame_data f buffer) (initial_crc_value f)"

definition frame_rest :: "frame_format \<Rightarrow> byte list \<Rightarrow> byte list" where
  "frame_rest f buffer = drop (4 + header_len f + nat (frame_data_len f buffer)) buffer"

subsection \<open>The loop body without its unreachable exceptions\<close>

lemma le_uint_nonneg: "0 \<le> le_uint bs"
  by (induction bs) auto

lemma unpack_H: "length bs = 2 \<Longrightarrow> struct_unpack [Fmt_H] bs = Inr [le_uint bs]"
  by simp

lemma unpack_header:
  "length lf = code_size c \<Longrightarrow>
   struct_unpack [Fmt_B, Fmt_B, c] (t # d # lf) = Inr [uint t, uint d, le_uint lf]"
  by simp

lemma drop_frame:
  assumes "length lf = k" and "length crc = 2"
  shows "drop (4 + (k + length dat)) (t # c # lf @ dat @ crc @ rest) = rest"
proof -
  have a: "drop (length (t # c # lf @ dat @ crc)) ((t # c # lf @ dat @ crc) @ rest) = rest"
    by (rule append_eq_conv_conj[THEN iffD1, THEN conjunct2, symmetric]) (rule refl)
  have l: "length (t # c # lf @ dat @ crc) = 4 + (k + length dat)"
    using assms by simp
  have e: "(t # c # lf @ dat @ crc) @ rest = t # c # lf @ dat @ crc @ rest"
    by simp
  from a show ?thesis unfolding l e .
qed

lemma loop_body_unknown:
  assumes "2 \<le> length buffer" and "formats (le_uint (take 2 buffer)) = None"
  shows "loop_body buffer = Continue (drop 1 buffer) []"
  using assms by (simp add: loop_body_def slice_def)

lemma loop_body_short:
  assumes "2 \<le> length buffer" and "formats (le_uint (take 2 buffer)) = Some f"
    and "length buffer < code_size (len_struct f) + 6"
  shows "loop_body buffer = Break"
  using assms by (simp add: loop_body_def slice_def Let_def)

lemma loop_body_wait:
  assumes mk: "length mk = 2" and f: "formats (le_uint mk) = Some f"
    and lf: "length lf = code_size (len_struct f)"
    and short: "int (length rest) < le_uint lf + 2"
  shows "loop_body (mk @ t # c # lf @ rest) = Break"
proof -
  have h: "struct_unpack [Fmt_B, Fmt_B, len_struct f] (t # c # lf) = Inr [uint t, uint c, le_uint lf]"
    by (rule unpack_header[OF lf])
  have m: "struct_unpack [Fmt_H] mk = Inr [le_uint mk]"
    by (rule unpack_H[OF mk])
  show ?thesis
    using short
    by (simp add: loop_body_def slice_def Let_def mk lf f h m del: struct_unpack.simps)
qed

lemma loop_body_frame:
  assumes mk: "length mk = 2" and f: "formats (le_uint mk) = Some f"
    and lf: "length lf = code_size (len_struct f)"
    and dat: "le_uint lf = int (length dat)"
    and crc: "length crc = 2"
  shows "loop_body (mk @ t # c # lf @ dat @ crc @ rest) =
    (if le_uint crc \<noteq> crc_hqx (t # c # lf @ dat) (initial_crc_value f)
     then Continue rest [Crc_mismatch (le_uint crc) (crc_hqx (t # c # lf @ dat) (initial_crc_value f))]
     else Continue rest [Yielded \<lparr>command = uint c, framing = le_uint mk, target = uint t, data = dat\<rparr>])"
proof -
  have h: "struct_unpack [Fmt_B, Fmt_B, len_struct f] (t # c # lf) = Inr [uint t, uint c, le_uint lf]"
    by (rule unpack_header[OF lf])
  have m: "struct_unpack [Fmt_H] mk = Inr [le_uint mk]"
    by (rule unpack_H[OF mk])
  have r: "struct_unpack [Fmt_H] crc = Inr [le_uint crc]"
    by (rule unpack_H[OF crc])
  show ?thesis
    by (simp add: loop_body_def slice_def Let_def mk lf f dat crc h m r
          drop_frame[OF lf crc] Packet_crc_def Packet_init_def dom_def del: struct_unpack.simps)
qed


lemma take_drop_split: "xs = take a xs @ take b (drop a xs) @ drop (a + b) xs"
  by (metis append_take_drop_id drop_drop add.commute)

lemma loop_body_eq:
  assumes len: "2 \<le> length buffer"
  shows "loop_body buffer =
    (case formats (frame_marker buffer) of
       None \<Rightarrow> Continue (drop 1 buffer) []
     | Some f \<Rightarrow>
        if length buffer < header_len f + 4 \<or>
           int (length buffer) < int (header_len f) + frame_data_len f buffer + 4
        then Break
        else if frame_rx_crc f buffer \<noteq> frame_calc_crc f buffer
        then Continue (frame_rest f buffer)
               [Crc_mismatch (frame_rx_crc f buffer) (frame_calc_crc f buffer)]
        else Continue (frame_rest f buffer)
               [Yielded \<lparr>command = uint (buffer ! 3), framing = frame_marker buffer,
                         target = uint (buffer ! 2), data = frame_data f buffer\<rparr>])"
proof (cases "formats (frame_marker buffer)")
  case None
  then show ?thesis
    using loop_body_unknown[OF len] by (simp add: frame_marker_def slice_def)
next
  case (Some f)
  define k where "k = code_size (len_struct f)"
  have hl: "header_len f = 2 + k"
    by (simp add: header_len_def k_def)
  have fm: "formats (le_uint (take 2 buffer)) = Some f"
    using Some by (simp add: frame_marker_def slice_def)
  show ?thesis
  proof (cases "length buffer < header_len f + 4")
    case True
    then show ?thesis
      using loop_body_short[OF len fm] Some by (simp add: hl k_def)
  next
    case False
    define mk where "mk = take 2 buffer"
    define lf where "lf = take k (drop 4 buffer)"
    define r1 where "r1 = drop (4 + k) buffer"
    have lmk: "length mk = 2" using len by (simp add: mk_def)
    have llf: "length lf = code_size (len_struct f)"
      using False by (simp add: lf_def hl k_def)
    have "length (take 2 (drop 2 buffer)) = 2"
      using False by (simp add: hl)
    then obtain t c where tc: "take 2 (drop 2 buffer) = [t, c]"
      by (metis (no_types, opaque_lifting) One_nat_def Suc_1 length_0_conv length_Suc_conv)
    have b1: "buffer = mk @ t # c # lf @ r1"
    proof -
      have "buffer = mk @ take 2 (drop 2 buffer) @ drop 4 buffer"
        unfolding mk_def using take_drop_split[of buffer 2 2] by simp
      also have "drop 4 buffer = lf @ r1"
        unfolding lf_def r1_def by (metis append_take_drop_id drop_drop add.commute)
      finally show ?thesis by (simp add: tc)
    qed
    have t: "buffer ! 2 = t" and c: "buffer ! 3 = c"
      by (subst b1, simp add: nth_append lmk)+
    have hdr: "frame_header f buffer = t # c # lf"
      by (subst b1) (simp add: frame_header_def slice_def hl lmk llf k_def)
    have dl: "frame_data_len f buffer = le_uint lf"
      by (simp add: frame_data_len_def hdr)
    have lr1: "length buffer = 4 + k + length r1"
      by (subst b1) (simp add: lmk llf k_def)
    show ?thesis
    proof (cases "int (length buffer) < int (header_len f) + frame_data_len f buffer + 4")
      case True
      then have "int (length r1) < le_uint lf + 2"
        by (simp add: dl hl lr1)
      from loop_body_wait[OF lmk _ llf this, of t c] fm True Some show ?thesis
        by (simp add: mk_def[symmetric] b1[symmetric])
    next
      case F2: False
      define n where "n = nat (le_uint lf)"
      define dat where "dat = take n r1"
      define crc where "crc = take 2 (drop n r1)"
      define rest where "rest = drop (n + 2) r1"
      have n: "le_uint lf = int n"
        by (simp add: n_def le_uint_nonneg)
      have lr: "n + 2 \<le> length r1"
        using F2 by (simp add: dl hl lr1 n)
      have ldat: "length dat = n" using lr by (simp add: dat_def)
      have lcrc: "length crc = 2" using lr by (simp add: crc_def)
      have b2: "r1 = dat @ crc @ rest"
        unfolding dat_def crc_def rest_def by (rule take_drop_split)
      have b: "buffer = mk @ t # c # lf @ dat @ crc @ rest"
        using b1 b2 by simp
      have fd: "frame_data f buffer = dat"
        unfolding frame_data_def dl n slice_def
        by (subst b) (simp add: hl lmk llf k_def ldat)
      have fr: "frame_rx_crc f buffer = le_uint crc"
        unfolding frame_rx_crc_def dl n slice_def
        by (subst b) (simp add: hl lmk llf k_def ldat lcrc)
      have fx: "frame_rest f buffer = rest"
        unfolding frame_rest_def dl n
        by (subst b) (simp add: hl lmk k_def drop_frame[OF llf lcrc, where dat=dat, unfolded ldat])
      have fc: "frame_calc_crc f buffer = crc_hqx (t # c # lf @ dat) (initial_crc_value f)"
        by (simp add: frame_calc_crc_def hdr fd)
      have "loop_body buffer =
        (if le_uint crc \<noteq> crc_hqx (t # c # lf @ dat) (initial_crc_value f)
         then Continue rest [Crc_mismatch (le_uint crc) (crc_hqx (t # c # lf @ dat) (initial_crc_value f))]
         else Continue rest [Yielded \<lparr>command = uint c, framing = le_uint mk, target = uint t, data = dat\<rparr>])"
        by (subst b) (rule loop_body_frame[OF lmk _ llf _ lcrc], simp_all add: mk_def fm n ldat)
      then show ?thesis
        using False F2 Some
        by (simp add: fd fr fx fc t c frame_marker_def slice_def mk_def)
    qed
  qed
qed

lemma loop_body_shrinks:
  assumes "2 \<le> length buffer" and "loop_body buffer = Continue b evs"
  shows "length b < length buffer"
  using assms
  by (auto simp: loop_body_eq frame_rest_def split: option.splits if_splits)

subsection \<open>The loop and the receiver\<close>

function parse_loop :: "byte list \<Rightarrow> byte list \<times> event list \<times> error option" where
  "parse_loop buffer =
     (if 2 \<le> length buffer
      then (case loop_body buffer of
              Break \<Rightarrow> (buffer, [], None)
            | Raise e b \<Rightarrow> (b, [], Some e)
            | Continue buffer' evs \<Rightarrow>
                (case parse_loop buffer' of (b, es, r) \<Rightarrow> (b, evs @ es, r)))
      else (buffer, [], None))"
  by pat_completeness auto
termination
  by (relation "measure length") (auto dest: loop_body_shrinks)

text \<open>\<^verbatim>\<open>PacketReceiver.__init__\<close> and \<^verbatim>\<open>PacketReceiver.parse(self, data)\<close>.\<close>

definition PacketReceiver_init :: "byte list" where
  "PacketReceiver_init = []"

definition parse :: "byte list \<Rightarrow> byte list \<Rightarrow> byte list \<times> event list \<times> error option" where
  "parse buffer dat = parse_loop (buffer @ dat)"

text \<open>What one pass over a complete candidate frame prints or yields.\<close>

definition frame_event :: "frame_format \<Rightarrow> byte list \<Rightarrow> event" where
  "frame_event f buffer =
     (if frame_rx_crc f buffer \<noteq> frame_calc_crc f buffer
      then Crc_mismatch (frame_rx_crc f buffer) (frame_calc_crc f buffer)
      else Yielded \<lparr>command = uint (buffer ! 3), framing = frame_marker buffer,
                    target = uint (buffer ! 2), data = frame_data f buffer\<rparr>)"

text \<open>
  The same loop with a bound on the number of times the \<^verbatim>\<open>while\<close> condition is tested:
  \<open>None\<close> when the bound is used up before the loop has ended.
\<close>

fun parse_fuel :: "nat \<Rightarrow> byte list \<Rightarrow> (byte list \<times> event list \<times> error option) option" where
  "parse_fuel 0 buffer = None"
| "parse_fuel (Suc n) buffer =
     (if 2 \<le> length buffer
      then (case loop_body buffer of
              Break \<Rightarrow> Some (buffer, [], None)
            | Raise e b \<Rightarrow> Some (b, [], Some e)
            | Continue buffer' evs \<Rightarrow>
                (case parse_fuel n buffer' of
                   None \<Rightarrow> None
                 | Some (b, es, r) \<Rightarrow> Some (b, evs @ es, r)))
      else Some (buffer, [], None))"

subsection \<open>Scenarios of the claims\<close>

text \<open>
  Several calls of \<^verbatim>\<open>parse\<close> on the same receiver, one per chunk, each generator run to
  exhaustion before the next call: the buffer left by the last call and everything the
  calls yielded and printed, in order. An exception ends the sequence.
\<close>

fun feed_chunks :: "byte list \<Rightarrow> byte list list \<Rightarrow> byte list \<times> event list \<times> error option" where
  "feed_chunks buffer [] = (buffer, [], None)"
| "feed_chunks buffer (c # cs) =
     (case parse buffer c of
        (b, es, Some e) \<Rightarrow> (b, es, Some e)
      | (b, es, None) \<Rightarrow>
          (case feed_chunks b cs of (b', es', r) \<Rightarrow> (b', es @ es', r)))"

text \<open>One bit of one byte of a byte sequence inverted: bit \<open>j\<close> of the byte at index \<open>k\<close>.\<close>

definition flip_bit_at :: "nat \<Rightarrow> nat \<Rightarrow> byte list \<Rightarrow> byte list" where
  "flip_bit_at k j bs = bs[k := flip_bit j (bs ! k)]"

text \<open>
  The bytes \<^verbatim>\<open>pack\<close> joins before it computes the CRC: target, command, length field and
  payload.
\<close>

definition packed_body :: "frame_format \<Rightarrow> Packet \<Rightarrow> byte list" where
  "packed_body f p =
     word_of_int (target p) # word_of_int (command p) #
     le_bytes (code_size (len_struct f)) (int (length (data p))) @ data p"

text \<open>
  The CRC that the specification names, for comparison with the one the code calls:
  CRC-16/ARC, the reflected form with polynomial 0xA001, the register shifted right,
  least significant bit first. Its published check value on \<^verbatim>\<open>123456789\<close> is 0xBB3D.
\<close>

definition spec_arc_shift :: "16 word \<Rightarrow> 16 word" where
  "spec_arc_shift c = (if bit c 0 then drop_bit 1 c XOR 0xA001 else drop_bit 1 c)"

definition spec_arc_update :: "16 word \<Rightarrow> byte \<Rightarrow> 16 word" where
  "spec_arc_update c b = (spec_arc_shift ^^ 8) (c XOR ucast b)"

definition spec_crc16_arc :: "byte list \<Rightarrow> int \<Rightarrow> int" where
  "spec_crc16_arc dat v = uint (foldl spec_arc_update (word_of_int v) dat)"

section \<open>Properties of the receiver loop\<close>

declare parse_loop.simps [simp del]

lemma parse_loop_short: "length buffer < 2 \<Longrightarrow> parse_loop buffer = (buffer, [], None)"
  by (subst parse_loop.simps) simp

lemma parse_loop_unknown:
  assumes "2 \<le> length buffer" and "formats (frame_marker buffer) = None"
  shows "parse_loop buffer = parse_loop (drop 1 buffer)"
  using assms by (subst parse_loop.simps) (simp add: loop_body_eq)

lemma parse_loop_wait:
  assumes "2 \<le> length buffer" and "formats (frame_marker buffer) = Some f"
    and "length buffer < header_len f + 4 \<or>
         int (length buffer) < int (header_len f) + frame_data_len f buffer + 4"
  shows "parse_loop buffer = (buffer, [], None)"
  using assms by (subst parse_loop.simps) (simp add: loop_body_eq)

lemma parse_loop_frame:
  assumes "2 \<le> length buffer" and "formats (frame_marker buffer) = Some f"
    and "\<not> length buffer < header_len f + 4"
    and "\<not> int (length buffer) < int (header_len f) + frame_data_len f buffer + 4"
  shows "parse_loop buffer =
    (case parse_loop (frame_rest f buffer) of
       (b, es, r) \<Rightarrow> (b, frame_event f buffer # es, r))"
  using assms by (subst parse_loop.simps) (simp add: loop_body_eq frame_event_def)

lemma parse_loop_no_raise: "snd (snd (parse_loop buffer)) = None"
proof (induction buffer rule: parse_loop.induct)
  case (1 buffer)
  show ?case
  proof (cases "2 \<le> length buffer")
    case False
    then show ?thesis by (simp add: parse_loop_short)
  next
    case True
    show ?thesis
    proof (cases "loop_body buffer")
      case Break
      with True show ?thesis by (subst parse_loop.simps) simp
    next
      case (Continue b evs)
      with True 1 show ?thesis
        by (subst parse_loop.simps) (auto split: prod.splits)
    next
      case (Raise e b)
      with True show ?thesis
        by (simp add: loop_body_eq split: option.splits if_splits)
    qed
  qed
qed


lemma header_len_eq: "header_len f = 2 + code_size (len_struct f)"
  by (simp add: header_len_def)

lemma frame_marker_append:
  "2 \<le> length b \<Longrightarrow> frame_marker (b @ d) = frame_marker b"
  by (simp add: frame_marker_def slice_def)

lemma frame_header_append:
  "header_len f + 2 \<le> length b \<Longrightarrow> frame_header f (b @ d) = frame_header f b"
  by (simp add: frame_header_def slice_def)

lemma frame_data_len_append:
  "header_len f + 2 \<le> length b \<Longrightarrow> frame_data_len f (b @ d) = frame_data_len f b"
  by (simp add: frame_data_len_def frame_header_append)

lemma frame_data_len_nonneg: "0 \<le> frame_data_len f b"
  by (simp add: frame_data_len_def le_uint_nonneg)

lemma frame_complete_append:
  assumes "header_len f + 4 \<le> length b"
    and "int (header_len f) + frame_data_len f b + 4 \<le> int (length b)"
  shows "frame_data f (b @ d) = frame_data f b"
    and "frame_rx_crc f (b @ d) = frame_rx_crc f b"
    and "frame_calc_crc f (b @ d) = frame_calc_crc f b"
    and "frame_rest f (b @ d) = frame_rest f b @ d"
proof -
  have h: "header_len f + 2 \<le> length b" using assms(1) by simp
  have n: "4 + header_len f + nat (frame_data_len f b) \<le> length b"
    using assms(2) frame_data_len_nonneg[of f b] by linarith
  show d: "frame_data f (b @ d) = frame_data f b"
    using n by (simp add: frame_data_def frame_data_len_append[OF h] slice_def)
  show "frame_rx_crc f (b @ d) = frame_rx_crc f b"
    using n by (simp add: frame_rx_crc_def frame_data_len_append[OF h] slice_def)
  show "frame_calc_crc f (b @ d) = frame_calc_crc f b"
    by (simp add: frame_calc_crc_def d frame_header_append[OF h])
  show "frame_rest f (b @ d) = frame_rest f b @ d"
    using n by (simp add: frame_rest_def frame_data_len_append[OF h])
qed

lemma frame_event_append:
  assumes "2 \<le> length b" "header_len f + 4 \<le> length b"
    and "int (header_len f) + frame_data_len f b + 4 \<le> int (length b)"
  shows "frame_event f (b @ d) = frame_event f b"
proof -
  have "4 \<le> length b" using assms(2) by (simp add: header_len_eq)
  then have "(b @ d) ! 2 = b ! 2" "(b @ d) ! 3 = b ! 3"
    by (simp_all add: nth_append)
  then show ?thesis
    by (simp add: frame_event_def frame_complete_append[OF assms(2,3)]
          frame_marker_append[OF assms(1)])
qed

lemma parse_loop_append:
  "parse_loop (b @ d) =
     (case parse_loop b of
        (b', es, r) \<Rightarrow> (case parse_loop (b' @ d) of (b'', es', r') \<Rightarrow> (b'', es @ es', r')))"
proof (induction b rule: parse_loop.induct)
  case (1 buffer)
  show ?case
  proof (cases "2 \<le> length buffer")
    case False
    then show ?thesis by (simp add: parse_loop_short split: prod.splits)
  next
    case len: True
    then have len': "2 \<le> length (buffer @ d)" by simp
    show ?thesis
    proof (cases "formats (frame_marker buffer)")
      case None
      then have lb: "loop_body buffer = Continue (drop 1 buffer) []"
        using len by (simp add: loop_body_eq)
      have "parse_loop (buffer @ d) = parse_loop (drop 1 buffer @ d)"
        using parse_loop_unknown[OF len'] None len
        by (simp add: frame_marker_append)
      also have "\<dots> = (case parse_loop (drop 1 buffer) of
        (b', es, r) \<Rightarrow> (case parse_loop (b' @ d) of (b'', es', r') \<Rightarrow> (b'', es @ es', r')))"
        by (rule 1[OF len lb])
      finally show ?thesis
        by (simp add: parse_loop_unknown[OF len None])
    next
      case (Some f)
      show ?thesis
      proof (cases "length buffer < header_len f + 4 \<or>
         int (length buffer) < int (header_len f) + frame_data_len f buffer + 4")
        case True
        then show ?thesis
          by (simp add: parse_loop_wait[OF len Some] split: prod.splits)
      next
        case False
        then have c1: "header_len f + 4 \<le> length buffer"
          and c2: "int (header_len f) + frame_data_len f buffer + 4 \<le> int (length buffer)"
          by simp_all
        have lb: "loop_body buffer = Continue (frame_rest f buffer) [frame_event f buffer]"
          using len Some False by (simp add: loop_body_eq frame_event_def)
        have ih: "parse_loop (frame_rest f buffer @ d) =
          (case parse_loop (frame_rest f buffer) of
             (b', es, r) \<Rightarrow> (case parse_loop (b' @ d) of (b'', es', r') \<Rightarrow> (b'', es @ es', r')))"
          by (rule 1[OF len lb])
        have s': "formats (frame_marker (buffer @ d)) = Some f"
          using Some len by (simp add: frame_marker_append)
        have dl: "frame_data_len f (buffer @ d) = frame_data_len f buffer"
          using c1 by (simp add: frame_data_len_append)
        have "parse_loop (buffer @ d) =
          (case parse_loop (frame_rest f (buffer @ d)) of
             (b, es, r) \<Rightarrow> (b, frame_event f (buffer @ d) # es, r))"
          using c1 c2 by (intro parse_loop_frame[OF len' s']) (simp_all add: dl)
        also have "\<dots> = (case parse_loop (frame_rest f buffer @ d) of
             (b, es, r) \<Rightarrow> (b, frame_event f buffer # es, r))"
          by (simp add: frame_complete_append[OF c1 c2] frame_event_append[OF len c1 c2])
        finally show ?thesis
          using False
          by (simp add: ih parse_loop_frame[OF len Some] split: prod.splits)
      qed
    qed
  qed
qed

lemma parse_fuel_enough:
  "length buffer \<le> n \<Longrightarrow> parse_fuel (Suc n) buffer = Some (parse_loop buffer)"
proof (induction n arbitrary: buffer rule: less_induct)
  case (less n)
  show ?case
  proof (cases "2 \<le> length buffer")
    case False
    then show ?thesis by (simp add: parse_loop_short)
  next
    case True
    show ?thesis
    proof (cases "loop_body buffer")
      case Break
      with True show ?thesis by (subst parse_loop.simps) simp
    next
      case (Raise e b)
      with True show ?thesis by (subst parse_loop.simps) simp
    next
      case (Continue b evs)
      from loop_body_shrinks[OF True Continue] less.prems
      obtain m where m: "n = Suc m" "length b \<le> m"
        by (cases n) auto
      then have "parse_fuel (Suc m) b = Some (parse_loop b)"
        using less.IH[of m b] by simp
      with True Continue m show ?thesis
        by (subst parse_loop.simps) (simp split: prod.splits)
    qed
  qed
qed

lemma loop_body_progress:
  assumes "2 \<le> length buffer"
  shows "(loop_body buffer = Break \<and>
          (\<exists>f. formats (frame_marker buffer) = Some f \<and>
               (length buffer < header_len f + 4 \<or>
                int (length buffer) < int (header_len f) + frame_data_len f buffer + 4))) \<or>
         (\<exists>k evs. 1 \<le> k \<and> k \<le> length buffer \<and> loop_body buffer = Continue (drop k buffer) evs)"
proof (cases "formats (frame_marker buffer)")
  case None
  with assms have "loop_body buffer = Continue (drop 1 buffer) []"
    by (simp add: loop_body_eq)
  with assms show ?thesis by (intro disjI2 exI[of _ 1]) auto
next
  case (Some f)
  show ?thesis
  proof (cases "length buffer < header_len f + 4 \<or>
                int (length buffer) < int (header_len f) + frame_data_len f buffer + 4")
    case True
    with assms Some show ?thesis by (simp add: loop_body_eq)
  next
    case False
    let ?k = "4 + header_len f + nat (frame_data_len f buffer)"
    from False have "?k \<le> length buffer"
      using frame_data_len_nonneg[of f buffer] by linarith
    moreover have "loop_body buffer = Continue (drop ?k buffer) [frame_event f buffer]"
      using assms Some False by (simp add: loop_body_eq frame_event_def frame_rest_def)
    ultimately show ?thesis by (intro disjI2 exI[of _ ?k]) auto
  qed
qed


section \<open>Evaluating the CRC\<close>

text \<open>
  The model of \<^verbatim>\<open>crc_hqx\<close> gives the published check values of this CRC on the ASCII
  string \<^verbatim>\<open>123456789\<close>: 0x31C3 from the initial value 0 (CRC-16/XMODEM) and 0x29B1 from
  0xFFFF (CRC-16/CCITT-FALSE).
\<close>

lemma funpow8: "(f ^^ 8) x = f (f (f (f (f (f (f (f x)))))))"
  by (simp add: eval_nat_numeral)

lemmas crc_eval = crc_hqx_def crc_update_def funpow8 crc_shift_def

lemma crc_example: "crc_hqx [0, 1, 2, 5, 0] 0 = 0xE721"
  by (simp add: crc_eval)

lemma crc_check: "crc_hqx [0x31, 0x32, 0x33, 0x34, 0x35, 0x36, 0x37, 0x38, 0x39] 0 = 0x31C3"
  by (simp add: crc_eval)

lemma crc_check2: "crc_hqx [0x31, 0x32, 0x33, 0x34, 0x35, 0x36, 0x37, 0x38, 0x39] 0xFFFF = 0x29B1"
  by (simp add: crc_eval)

section \<open>Properties of pack\<close>

lemma length_le_bytes: "length (le_bytes n v) = n"
  by (induction n arbitrary: v) auto

lemma uint_byte_of_int: "uint (word_of_int v :: byte) = v mod 256"
  by (simp add: uint_word_of_int take_bit_eq_mod)

lemma le_uint_le_bytes:
  "0 \<le> v \<Longrightarrow> v < 256 ^ n \<Longrightarrow> le_uint (le_bytes n v) = v"
proof (induction n arbitrary: v)
  case 0
  then show ?case by simp
next
  case (Suc n)
  have "0 \<le> v div 256" using Suc.prems(1) by simp
  moreover have "v div 256 < 256 ^ n"
    using Suc.prems by (simp add: div_less_iff_less_mult mult.commute)
  ultimately have "le_uint (le_bytes n (v div 256)) = v div 256"
    by (rule Suc.IH)
  then show ?case
    by (simp add: uint_byte_of_int)
qed

lemma formats_cases:
  assumes "formats frm = Some f"
  shows "(frm = LONG_FORM \<and> f = \<lparr>len_struct = Fmt_H, initial_crc_value = 0xffff\<rparr>) \<or>
         (frm = SHORT_FORM \<and> f = \<lparr>len_struct = Fmt_B, initial_crc_value = 0x0000\<rparr>)"
  using assms by (auto simp: formats_def split: if_splits)

lemma formats_range: "formats frm = Some f \<Longrightarrow> 0 \<le> frm \<and> frm < 65536"
  by (auto dest!: formats_cases simp: LONG_FORM_def SHORT_FORM_def)

lemma crc_hqx_range: "0 \<le> crc_hqx bs v \<and> crc_hqx bs v < 65536"
proof -
  have "uint (w :: 16 word) < 65536" for w
    using uint_bounded[of w] by simp
  then show ?thesis by (simp add: crc_hqx_def)
qed

lemma pack_eq:
  assumes f: "formats (framing p) = Some f"
    and t: "0 \<le> target p" "target p < 256"
    and c: "0 \<le> command p" "command p < 256"
    and n: "int (length (data p)) < 256 ^ code_size (len_struct f)"
  shows "pack p = Inr (le_bytes 2 (framing p) @ packed_body f p @
                       le_bytes 2 (crc_hqx (packed_body f p) (initial_crc_value f)))"
proof -
  have p0: "struct_pack [Fmt_B, Fmt_B] [target p, command p] =
            Inr [word_of_int (target p), word_of_int (command p)]"
    using t c by simp
  have p1: "struct_pack [len_struct f] [int (length (data p))] =
            Inr (le_bytes (code_size (len_struct f)) (int (length (data p))))"
    using n by simp
  have p3: "struct_pack [Fmt_H] [crc_hqx bs v] = Inr (le_bytes 2 (crc_hqx bs v))" for bs v
    using crc_hqx_range[of bs v] by simp
  have pm: "struct_pack [Fmt_H] [framing p] = Inr (le_bytes 2 (framing p))"
    using formats_range[OF f] by simp
  show ?thesis
    unfolding pack_def Packet_crc_def Let_def
    by (simp add: p0 p1 f p3 pm packed_body_def del: struct_pack.simps le_bytes.simps)
qed

lemma parse_loop_packed:
  assumes f: "formats (framing p) = Some f"
    and t: "0 \<le> target p" "target p < 256"
    and c: "0 \<le> command p" "command p < 256"
    and n: "int (length (data p)) < 256 ^ code_size (len_struct f)"
    and bs: "pack p = Inr bs"
  shows "parse_loop (bs @ rest) =
           (case parse_loop rest of (b, es, r) \<Rightarrow> (b, Yielded p # es, r))"
proof -
  define mk where "mk = le_bytes 2 (framing p)"
  define lf where "lf = le_bytes (code_size (len_struct f)) (int (length (data p)))"
  define tb :: byte where "tb = word_of_int (target p)"
  define cb :: byte where "cb = word_of_int (command p)"
  define crc where "crc = le_bytes 2 (crc_hqx (tb # cb # lf @ data p) (initial_crc_value f))"
  have e: "bs @ rest = mk @ tb # cb # lf @ data p @ crc @ rest"
    using bs pack_eq[OF f t c n]
    by (simp add: mk_def lf_def tb_def cb_def crc_def packed_body_def del: le_bytes.simps)
  have lmk: "length mk = 2" by (simp add: mk_def length_le_bytes)
  have fm: "formats (le_uint mk) = Some f"
    using formats_range[OF f] f by (simp add: mk_def le_uint_le_bytes del: le_bytes.simps)
  have llf: "length lf = code_size (len_struct f)" by (simp add: lf_def length_le_bytes)
  have dl: "le_uint lf = int (length (data p))"
    using n by (simp add: lf_def le_uint_le_bytes)
  have lcrc: "length crc = 2" by (simp add: crc_def length_le_bytes)
  have cv: "le_uint crc = crc_hqx (tb # cb # lf @ data p) (initial_crc_value f)"
    using crc_hqx_range[of "tb # cb # lf @ data p" "initial_crc_value f"]
    by (simp add: crc_def le_uint_le_bytes del: le_bytes.simps)
  have mv: "le_uint mk = framing p"
    using formats_range[OF f] by (simp add: mk_def le_uint_le_bytes del: le_bytes.simps)
  have tv: "uint tb = target p" and cmv: "uint cb = command p"
    using t c by (simp_all add: tb_def cb_def uint_byte_of_int)
  have "loop_body (bs @ rest) = Continue rest [Yielded p]"
    unfolding e
    by (subst loop_body_frame[OF lmk fm llf dl lcrc]) (simp add: cv mv tv cmv)
  moreover have "2 \<le> length (bs @ rest)"
    unfolding e using lmk by simp
  ultimately show ?thesis
    by (subst parse_loop.simps) simp
qed

lemma parse_loop_Nil: "parse_loop [] = ([], [], None)"
  by (simp add: parse_loop_short)

lemma short_format: "formats SHORT_FORM = Some \<lparr>len_struct = Fmt_B, initial_crc_value = 0\<rparr>"
  by (simp add: formats_def SHORT_FORM_def LONG_FORM_def)

lemma long_format: "formats LONG_FORM = Some \<lparr>len_struct = Fmt_H, initial_crc_value = 0xffff\<rparr>"
  by (simp add: formats_def SHORT_FORM_def LONG_FORM_def)

lemma short_format_num: "formats 0x5aa5 = Some \<lparr>len_struct = Fmt_B, initial_crc_value = 0\<rparr>"
  using short_format by (simp add: SHORT_FORM_def)

lemma le_bytes_1: "le_bytes 1 v = [word_of_int v]"
  by simp

lemma le_bytes_2: "le_bytes 2 v = [word_of_int v, word_of_int (v div 256)]"
  by (simp add: numeral_2_eq_2)

lemma struct_pack_error: "struct_pack cs vs = Inl e \<Longrightarrow> e = StructError"
  by (induction cs vs rule: struct_pack.induct) (auto split: if_splits sum.splits)

lemma pack_example:
  "pack \<lparr>command = 1, framing = SHORT_FORM, target = 0, data = [5, 0]\<rparr> =
     Inr [0xA5, 0x5A, 0, 1, 2, 5, 0, 0x21, 0xE7]"
  by (simp add: pack_def short_format_num Packet_crc_def crc_example le_bytes_2 SHORT_FORM_def)

lemma arc_check: "spec_crc16_arc [0x31, 0x32, 0x33, 0x34, 0x35, 0x36, 0x37, 0x38, 0x39] 0 = 0xBB3D"
  by (simp add: spec_crc16_arc_def spec_arc_update_def funpow8 spec_arc_shift_def)

lemma arc_example: "spec_crc16_arc [0, 1, 2, 5, 0] 0 = 0x6CA3"
  by (simp add: spec_crc16_arc_def spec_arc_update_def funpow8 spec_arc_shift_def)

lemma parse_loop_stable:
  "parse_loop (fst (parse_loop buffer)) = (fst (parse_loop buffer), [], None)"
proof (induction buffer rule: parse_loop.induct)
  case (1 buffer)
  show ?case
  proof (cases "2 \<le> length buffer")
    case False
    then show ?thesis by (simp add: parse_loop_short)
  next
    case True
    show ?thesis
    proof (cases "loop_body buffer")
      case Break
      then have e: "parse_loop buffer = (buffer, [], None)"
        using True by (subst parse_loop.simps) simp
      show ?thesis by (simp add: e)
    next
      case (Continue b evs)
      then have "fst (parse_loop buffer) = fst (parse_loop b)"
        using True by (subst parse_loop.simps) (simp split: prod.splits)
      with 1[OF True Continue] show ?thesis by simp
    next
      case (Raise e b)
      with True show ?thesis
        by (simp add: loop_body_eq split: option.splits if_splits)
    qed
  qed
qed

lemma feed_chunks_eq:
  "parse_loop b = (b, [], None) \<Longrightarrow> feed_chunks b chunks = parse_loop (b @ concat chunks)"
proof (induction chunks arbitrary: b)
  case Nil
  then show ?case by simp
next
  case (Cons c cs)
  obtain b' es r where p: "parse_loop (b @ c) = (b', es, r)"
    by (cases "parse_loop (b @ c)") auto
  have r: "r = None"
    using parse_loop_no_raise[of "b @ c"] p by simp
  have st: "parse_loop b' = (b', [], None)"
    using parse_loop_stable[of "b @ c"] p by simp
  have "parse_loop ((b @ c) @ concat cs) =
        (case parse_loop (b' @ concat cs) of (b'', es', r') \<Rightarrow> (b'', es @ es', r'))"
    by (subst parse_loop_append) (simp add: p)
  then show ?case
    using Cons.IH[OF st] by (simp add: parse_def p r)
qed

lemma frame_parts:
  assumes mk: "length mk = 2" and lf: "length lf = code_size (len_struct f)"
    and dl: "le_uint lf = int (length dat)"
  shows "frame_header f (mk @ t # c # lf @ dat @ rest) = t # c # lf"
    and "frame_data_len f (mk @ t # c # lf @ dat @ rest) = int (length dat)"
    and "frame_data f (mk @ t # c # lf @ dat @ rest) = dat"
    and "frame_calc_crc f (mk @ t # c # lf @ dat @ rest) =
           crc_hqx (t # c # lf @ dat) (initial_crc_value f)"
proof -
  show h: "frame_header f (mk @ t # c # lf @ dat @ rest) = t # c # lf"
    by (simp add: frame_header_def slice_def header_len_eq mk lf)
  show n: "frame_data_len f (mk @ t # c # lf @ dat @ rest) = int (length dat)"
    by (simp add: frame_data_len_def h dl)
  show d: "frame_data f (mk @ t # c # lf @ dat @ rest) = dat"
    by (simp add: frame_data_def n slice_def header_len_eq mk lf)
  show "frame_calc_crc f (mk @ t # c # lf @ dat @ rest) =
           crc_hqx (t # c # lf @ dat) (initial_crc_value f)"
    by (simp add: frame_calc_crc_def h d)
qed

section \<open>The CRC tells frames apart that differ in one byte\<close>

lemma bit_shl1: "bit (push_bit 1 (c :: 16 word)) n = (0 < n \<and> n < 16 \<and> bit c (n - 1))"
  by (subst bit_push_bit_iff) (auto simp: Suc_le_eq)

lemma crc_shift_bit0: "bit (crc_shift c) 0 = bit c 15"
  unfolding crc_shift_def
  by (cases "bit c 15") (simp_all only: if_True if_False bit_xor_iff bit_shl1, simp_all)

lemma crc_shift_bit_Suc:
  "n < 15 \<Longrightarrow>
   bit (crc_shift c) (Suc n) = (bit c n \<noteq> (bit c 15 \<and> bit (0x1021 :: 16 word) (Suc n)))"
  unfolding crc_shift_def
  by (cases "bit c 15") (simp_all only: if_True if_False bit_xor_iff bit_shl1, simp_all)

lemma xor_cancel_left: "(s :: 16 word) XOR x = s XOR y \<Longrightarrow> x = y"
  by (metis bit.xor_left_self)

lemma xor_cancel_right: "(s :: 16 word) XOR x = s' XOR x \<Longrightarrow> s = s'"
  by (metis bit.xor_left_self xor.commute)

lemma inj_crc_shift: "inj crc_shift"
proof (rule injI)
  fix a b :: "16 word"
  assume e: "crc_shift a = crc_shift b"
  have top: "bit a 15 = bit b 15"
    using crc_shift_bit0[of a] crc_shift_bit0[of b] e by simp
  show "a = b"
  proof (rule bit_word_eqI)
    fix n assume n: "n < LENGTH(16)"
    show "bit a n = bit b n"
    proof (cases "n = 15")
      case True
      with top show ?thesis by simp
    next
      case False
      with n have "n < 15" by simp
      from crc_shift_bit_Suc[OF this, of a] crc_shift_bit_Suc[OF this, of b] e top
      show ?thesis by auto
    qed
  qed
qed

lemma inj_byte_shift: "push_bit 8 (ucast (b :: byte) :: 16 word) = push_bit 8 (ucast b') \<Longrightarrow> b = b'"
proof (rule bit_word_eqI)
  fix n assume e: "push_bit 8 (ucast b :: 16 word) = push_bit 8 (ucast b')" and n: "n < LENGTH(8)"
  have "bit (push_bit 8 (ucast b :: 16 word)) (n + 8) = bit b n" for b :: byte
    using n by (simp add: bit_simps)
  with e show "bit b n = bit b' n" by metis
qed

lemma crc_update_inj_byte: "crc_update s b = crc_update s b' \<Longrightarrow> b = b'"
proof -
  assume "crc_update s b = crc_update s b'"
  then have "s XOR push_bit 8 (ucast b) = s XOR push_bit 8 (ucast b')"
    unfolding crc_update_def using inj_fn[OF inj_crc_shift, of 8] by (simp add: inj_eq)
  then have "push_bit 8 (ucast b :: 16 word) = push_bit 8 (ucast b')"
    by (rule xor_cancel_left)
  then show ?thesis by (rule inj_byte_shift)
qed

lemma crc_update_inj_state: "crc_update s b = crc_update s' b \<Longrightarrow> s = s'"
proof -
  assume "crc_update s b = crc_update s' b"
  then have "s XOR push_bit 8 (ucast b) = s' XOR push_bit 8 (ucast b)"
    unfolding crc_update_def using inj_fn[OF inj_crc_shift, of 8] by (simp add: inj_eq)
  then show ?thesis by (rule xor_cancel_right)
qed

lemma foldl_crc_inj: "foldl crc_update s bs = foldl crc_update s' bs \<Longrightarrow> s = s'"
  by (induction bs arbitrary: s s') (auto dest: crc_update_inj_state)

lemma crc_hqx_one_byte:
  assumes "b \<noteq> b'"
  shows "crc_hqx (pre @ b # post) v \<noteq> crc_hqx (pre @ b' # post) v"
proof
  assume "crc_hqx (pre @ b # post) v = crc_hqx (pre @ b' # post) v"
  then have "foldl crc_update (crc_update (foldl crc_update (word_of_int v) pre) b) post =
             foldl crc_update (crc_update (foldl crc_update (word_of_int v) pre) b') post"
    by (simp add: crc_hqx_def word_uint_eq_iff[symmetric])
  then have "b = b'"
    by (blast dest: foldl_crc_inj crc_update_inj_byte)
  with assms show False by simp
qed

lemma flip_bit_neq: "j < 8 \<Longrightarrow> flip_bit j (b :: byte) \<noteq> b"
proof
  assume j: "j < 8" and e: "flip_bit j b = b"
  have "bit (flip_bit j b) j = (\<not> bit b j)"
    using j by (simp add: bit_simps)
  with e show False by simp
qed

lemma one_byte_flipped:
  fixes xs :: "byte list"
  assumes "i < length xs" and "j < 8"
  shows "\<exists>pre b post. xs = pre @ b # post \<and>
           xs[i := flip_bit j (xs ! i)] = pre @ flip_bit j b # post \<and> flip_bit j b \<noteq> b"
proof (intro exI conjI)
  show "xs = take i xs @ xs ! i # drop (Suc i) xs"
    using assms(1) by (simp add: id_take_nth_drop)
  show "xs[i := flip_bit j (xs ! i)] = take i xs @ flip_bit j (xs ! i) # drop (Suc i) xs"
    using assms(1) by (simp add: upd_conv_take_nth_drop)
  show "flip_bit j (xs ! i) \<noteq> xs ! i"
    using assms(2) by (rule flip_bit_neq)
qed

lemma crc_hqx_flipped:
  assumes "i < length xs" and "j < 8"
  shows "crc_hqx (xs[i := flip_bit j (xs ! i)]) v \<noteq> crc_hqx xs v"
proof -
  from one_byte_flipped[OF assms] obtain pre b post where
    "xs = pre @ b # post" "xs[i := flip_bit j (xs ! i)] = pre @ flip_bit j b # post"
    "flip_bit j b \<noteq> b"
    by blast
  then show ?thesis
    using crc_hqx_one_byte[of "flip_bit j b" b pre post v] by simp
qed

lemma frame_bad_crc:
  assumes mk: "length mk = 2" and f: "formats (le_uint mk) = Some f"
    and body: "body = t # c # lf @ dat" and lf: "length lf = code_size (len_struct f)"
    and dl: "le_uint lf = int (length dat)" and crc: "length crc = 2"
    and bad: "le_uint crc \<noteq> crc_hqx body (initial_crc_value f)"
  shows "parse_loop (mk @ body @ crc @ rest) =
     (case parse_loop rest of
        (b, es, r) \<Rightarrow>
          (b, Crc_mismatch (le_uint crc) (crc_hqx body (initial_crc_value f)) # es, r))"
proof -
  have "loop_body (mk @ t # c # lf @ dat @ crc @ rest) =
        Continue rest [Crc_mismatch (le_uint crc) (crc_hqx body (initial_crc_value f))]"
    using bad by (simp add: loop_body_frame[OF mk f lf dl crc] body)
  moreover have "2 \<le> length (mk @ t # c # lf @ dat @ crc @ rest)"
    using mk by simp
  ultimately show ?thesis
    by (subst parse_loop.simps) (simp add: body)
qed

lemma tamper_ex1:
  "parse PacketReceiver_init [0xA5, 0x5A, 0, 1, 3, 5, 0, 0x21, 0xE7] =
     ([0xA5, 0x5A, 0, 1, 3, 5, 0, 0x21, 0xE7], [], None)"
  by code_simp

lemma tamper_ex2:
  "parse PacketReceiver_init
     ([0xA5, 0x5A, 0, 1, 3, 5, 0, 0x21, 0xE7] @ [0xA5, 0x5A, 0, 1, 2, 5, 0, 0x21, 0xE7]) =
     ([0xE7], [Crc_mismatch 0xA5E7 0xEE3E], None)"
  by code_simp

lemma tamper_ex3:
  "flip_bit_at 4 0 [0xA5, 0x5A, 0, 1, 2, 5, 0, 0x21, 0xE7] = [0xA5, 0x5A, 0, 1, 3, 5, 0, 0x21, 0xE7]"
  by (simp add: flip_bit_at_def flip_bit_eq_xor)

section \<open>The claims about the receiver loop\<close>

text \<open>
  C4. A buffer that starts with a recognized marker and holds the whole candidate frame
  (\<open>header_len + 4 \<le> length buffer\<close> and \<open>header_len + data_len + 4 \<le> length buffer\<close>)
  whose trailing CRC field differs from the recomputed CRC: one pass of the loop cuts
  exactly \<open>2 + header_len + data_len + 2\<close> bytes off the front and prints the received and
  the expected CRC; it yields no Packet. The loop then goes on with the bytes that
  follow, and the whole call ends without an exception.
\<close>

theorem crc_mismatch_drops_frame:
  assumes "2 \<le> length buffer" and "formats (frame_marker buffer) = Some f"
    and "header_len f + 4 \<le> length buffer"
    and "int (header_len f) + frame_data_len f buffer + 4 \<le> int (length buffer)"
    and "frame_rx_crc f buffer \<noteq> frame_calc_crc f buffer"
  shows "loop_body buffer =
           Continue (drop (2 + header_len f + nat (frame_data_len f buffer) + 2) buffer)
             [Crc_mismatch (frame_rx_crc f buffer) (frame_calc_crc f buffer)] \<and>
         parse_loop buffer =
           (case parse_loop (drop (2 + header_len f + nat (frame_data_len f buffer) + 2) buffer) of
              (b, es, r) \<Rightarrow>
                (b, Crc_mismatch (frame_rx_crc f buffer) (frame_calc_crc f buffer) # es, None))"
proof -
  have e: "2 + header_len f + nat (frame_data_len f buffer) + 2 =
           4 + header_len f + nat (frame_data_len f buffer)" by simp
  have c: "\<not> length buffer < header_len f + 4"
    "\<not> int (length buffer) < int (header_len f) + frame_data_len f buffer + 4"
    using assms(3,4) by simp_all
  have "snd (snd (parse_loop (frame_rest f buffer))) = None"
    by (rule parse_loop_no_raise)
  then show ?thesis
    unfolding e
    using assms c parse_loop_frame[OF assms(1,2) c]
    by (simp add: loop_body_eq frame_rest_def frame_event_def split: prod.splits)
qed

theorem crc_mismatch_drops_frame_witness:
  "parse_loop [0xA5, 0x5A, 0, 1, 2, 5, 0, 0, 0, 7] = ([7], [Crc_mismatch 0 0xE721], None)"
  using crc_mismatch_drops_frame[of "[0xA5, 0x5A, 0, 1, 2, 5, 0, 0, 0, 7]"
          "\<lparr>len_struct = Fmt_B, initial_crc_value = 0\<rparr>"]
  by (simp add: frame_marker_def slice_def formats_def SHORT_FORM_def LONG_FORM_def
        frame_data_len_def frame_header_def header_len_def frame_rx_crc_def
        frame_calc_crc_def frame_data_def crc_example parse_loop_short)



text \<open>
  C7. When the buffer starts with a recognized marker and holds fewer than
  \<open>header_len + 4\<close> bytes, or fewer than \<open>header_len + data_len + 4\<close>, the loop body breaks,
  the loop ends with the buffer unchanged and nothing yielded or printed, and the next
  call of \<^verbatim>\<open>parse\<close> works on exactly these bytes followed by the new ones.
\<close>

theorem parse_stop_keeps_buffer:
  assumes "2 \<le> length buffer" and "formats (frame_marker buffer) = Some f"
    and "length buffer < header_len f + 4 \<or>
         int (length buffer) < int (header_len f) + frame_data_len f buffer + 4"
  shows "loop_body buffer = Break \<and>
         parse_loop buffer = (buffer, [], None) \<and>
         parse (fst (parse_loop buffer)) nxt = parse_loop (buffer @ nxt)"
  using assms by (simp add: parse_loop_wait[OF assms] loop_body_eq parse_def)

theorem parse_stop_keeps_buffer_witness:
  "loop_body [0xA5, 0x5A, 0, 1, 2, 5] = Break \<and>
   parse_loop [0xA5, 0x5A, 0, 1, 2, 5] = ([0xA5, 0x5A, 0, 1, 2, 5], [], None) \<and>
   parse (fst (parse_loop [0xA5, 0x5A, 0, 1, 2, 5])) [0, 0x21, 0xE7] =
     parse_loop ([0xA5, 0x5A, 0, 1, 2, 5] @ [0, 0x21, 0xE7])"
  using parse_stop_keeps_buffer[of "[0xA5, 0x5A, 0, 1, 2, 5]"
          "\<lparr>len_struct = Fmt_B, initial_crc_value = 0\<rparr>" "[0, 0x21, 0xE7]"]
  by (simp add: frame_marker_def slice_def formats_def SHORT_FORM_def LONG_FORM_def
        frame_data_len_def frame_header_def header_len_def parse_def)

text \<open>
  C10. The loop ends: on a buffer of \<open>n\<close> bytes the \<^verbatim>\<open>while\<close> condition is tested at most
  \<open>n + 1\<close> times, and the bounded loop then returns what \<open>parse_loop\<close> returns. Each pass
  through the body either breaks, on a recognized marker with too few bytes for the
  candidate frame, or goes on with the buffer less a non-empty prefix; the loop is left
  without a pass when fewer than 2 bytes are buffered.
\<close>

theorem parse_terminates:
  "parse_fuel (Suc (length buffer)) buffer = Some (parse_loop buffer) \<and>
   (2 \<le> length buffer \<longrightarrow>
      loop_body buffer = Break \<and>
        (\<exists>f. formats (frame_marker buffer) = Some f \<and>
             (length buffer < header_len f + 4 \<or>
              int (length buffer) < int (header_len f) + frame_data_len f buffer + 4)) \<or>
      (\<exists>k evs. 1 \<le> k \<and> k \<le> length buffer \<and>
                loop_body buffer = Continue (drop k buffer) evs))"
  using parse_fuel_enough[of buffer "length buffer"] loop_body_progress[of buffer]
  by simp

theorem parse_terminates_witness:
  "parse_fuel (Suc (length [0, 0xA5, 0x5A :: byte])) [0, 0xA5, 0x5A] =
     Some (parse_loop [0, 0xA5, 0x5A]) \<and>
   (loop_body [0, 0xA5, 0x5A] = Break \<and>
      (\<exists>f. formats (frame_marker [0, 0xA5, 0x5A]) = Some f \<and>
           (length [0, 0xA5, 0x5A :: byte] < header_len f + 4 \<or>
            int (length [0, 0xA5, 0x5A :: byte]) <
              int (header_len f) + frame_data_len f [0, 0xA5, 0x5A] + 4)) \<or>
    (\<exists>k evs. 1 \<le> k \<and> k \<le> length [0, 0xA5, 0x5A :: byte] \<and>
              loop_body [0, 0xA5, 0x5A] = Continue (drop k [0, 0xA5, 0x5A]) evs))"
proof -
  have "2 \<le> length [0, 0xA5, 0x5A :: byte]" by simp
  with parse_terminates[of "[0, 0xA5, 0x5A]"] show ?thesis by blast
qed

section \<open>The claims about pack and the round trip\<close>

text \<open>
  C1. A Packet with a recognized framing, target and command in the range of a byte (the
  data model's 8-bit unsigned fields) and a payload whose length fits the length field of
  its framing: \<^verbatim>\<open>pack\<close> returns bytes, and a fresh receiver that parses them yields exactly
  one Packet, equal to the original in framing, target, command and payload; nothing is
  printed, nothing stays buffered.
\<close>

theorem pack_parse_roundtrip:
  assumes "formats (framing p) = Some f"
    and "0 \<le> target p \<and> target p < 256"
    and "0 \<le> command p \<and> command p < 256"
    and "int (length (data p)) < 256 ^ code_size (len_struct f)"
  shows "\<exists>bs. pack p = Inr bs \<and> parse PacketReceiver_init bs = ([], [Yielded p], None)"
proof -
  from assms have v: "0 \<le> target p" "target p < 256" "0 \<le> command p" "command p < 256"
    by simp_all
  obtain bs where bs: "pack p = Inr bs"
    using pack_eq[OF assms(1) v assms(4)] by blast
  have "parse_loop (bs @ []) = ([], [Yielded p], None)"
    by (simp only: parse_loop_packed[OF assms(1) v assms(4) bs] parse_loop_Nil prod.case)
  then show ?thesis
    using bs by (simp add: parse_def PacketReceiver_init_def)
qed

theorem pack_parse_roundtrip_witness:
  "\<exists>bs. pack \<lparr>command = 1, framing = SHORT_FORM, target = 0, data = [5, 0]\<rparr> = Inr bs \<and>
        parse PacketReceiver_init bs =
          ([], [Yielded \<lparr>command = 1, framing = SHORT_FORM, target = 0, data = [5, 0]\<rparr>], None)"
  using pack_parse_roundtrip[of "\<lparr>command = 1, framing = SHORT_FORM, target = 0, data = [5, 0]\<rparr>"
          "\<lparr>len_struct = Fmt_B, initial_crc_value = 0\<rparr>"]
  by (simp add: short_format)

text \<open>
  C2. The bytes \<^verbatim>\<open>pack\<close> returns are the 2-byte marker, one byte of target, one of command,
  the length field (1 byte for the short form, 2 for the long form) holding the payload
  length, the payload, and a 2-byte CRC over target, command, length field and payload;
  every field of more than one byte reads back little-endian (\<open>le_uint\<close>). For the short
  form Packet with target 0x00, command 0x01 and payload 05 00 the bytes are
  A5 5A 00 01 02, the payload, and 21 E7, which is the CRC from seed 0x0000 over
  00 01 02 05 00; a fresh receiver that parses them yields that Packet.
\<close>

theorem pack_layout:
  "(formats (framing p) = Some f \<and>
    0 \<le> target p \<and> target p < 256 \<and> 0 \<le> command p \<and> command p < 256 \<and>
    int (length (data p)) < 256 ^ code_size (len_struct f) \<longrightarrow>
    (\<exists>mk t c lf crc.
       pack p = Inr (mk @ [t] @ [c] @ lf @ data p @ crc) \<and>
       length mk = 2 \<and> le_uint mk = framing p \<and>
       uint t = target p \<and> uint c = command p \<and>
       length lf = (if framing p = SHORT_FORM then 1 else 2) \<and>
       le_uint lf = int (length (data p)) \<and>
       length crc = 2 \<and>
       le_uint crc = crc_hqx ([t] @ [c] @ lf @ data p) (initial_crc_value f))) \<and>
   pack \<lparr>command = 0x01, framing = SHORT_FORM, target = 0x00, data = [0x05, 0x00]\<rparr> =
     Inr ([0xA5, 0x5A, 0x00, 0x01, 0x02] @ [0x05, 0x00] @ [0x21, 0xE7]) \<and>
   le_uint [0x21, 0xE7] = crc_hqx [0x00, 0x01, 0x02, 0x05, 0x00] 0x0000 \<and>
   parse PacketReceiver_init ([0xA5, 0x5A, 0x00, 0x01, 0x02] @ [0x05, 0x00] @ [0x21, 0xE7]) =
     ([], [Yielded \<lparr>command = 0x01, framing = SHORT_FORM, target = 0x00,
                    data = [0x05, 0x00]\<rparr>], None)"
proof (intro conjI impI)
  assume a: "formats (framing p) = Some f \<and>
    0 \<le> target p \<and> target p < 256 \<and> 0 \<le> command p \<and> command p < 256 \<and>
    int (length (data p)) < 256 ^ code_size (len_struct f)"
  then have f: "formats (framing p) = Some f"
    and v: "0 \<le> target p" "target p < 256" "0 \<le> command p" "command p < 256"
    and n: "int (length (data p)) < 256 ^ code_size (len_struct f)"
    by simp_all
  let ?mk = "le_bytes 2 (framing p)"
  let ?t = "word_of_int (target p) :: byte"
  let ?c = "word_of_int (command p) :: byte"
  let ?lf = "le_bytes (code_size (len_struct f)) (int (length (data p)))"
  let ?crc = "le_bytes 2 (crc_hqx ([?t] @ [?c] @ ?lf @ data p) (initial_crc_value f))"
  have k: "code_size (len_struct f) = (if framing p = SHORT_FORM then 1 else 2)"
    using formats_cases[OF f] by (auto simp: LONG_FORM_def SHORT_FORM_def)
  have 1: "pack p = Inr (?mk @ [?t] @ [?c] @ ?lf @ data p @ ?crc)"
    using pack_eq[OF f v n] by (simp add: packed_body_def del: le_bytes.simps)
  have 2: "le_uint ?mk = framing p"
    using formats_range[OF f] by (intro le_uint_le_bytes) simp_all
  have 3: "uint ?t = target p" "uint ?c = command p"
    using v by (simp_all add: uint_byte_of_int)
  have 4: "le_uint ?lf = int (length (data p))"
    using n by (intro le_uint_le_bytes) simp_all
  have 5: "le_uint ?crc = crc_hqx ([?t] @ [?c] @ ?lf @ data p) (initial_crc_value f)"
    using crc_hqx_range[of "[?t] @ [?c] @ ?lf @ data p" "initial_crc_value f"]
    by (intro le_uint_le_bytes) simp_all
  show "\<exists>mk t c lf crc.
       pack p = Inr (mk @ [t] @ [c] @ lf @ data p @ crc) \<and>
       length mk = 2 \<and> le_uint mk = framing p \<and>
       uint t = target p \<and> uint c = command p \<and>
       length lf = (if framing p = SHORT_FORM then 1 else 2) \<and>
       le_uint lf = int (length (data p)) \<and>
       length crc = 2 \<and>
       le_uint crc = crc_hqx ([t] @ [c] @ lf @ data p) (initial_crc_value f)"
    apply (rule exI[of _ ?mk], rule exI[of _ ?t], rule exI[of _ ?c],
           rule exI[of _ ?lf], rule exI[of _ ?crc])
    using 1 2 3 4 5 k by (simp only: length_le_bytes simp_thms)
next
  show "pack \<lparr>command = 0x01, framing = SHORT_FORM, target = 0x00, data = [0x05, 0x00]\<rparr> =
     Inr ([0xA5, 0x5A, 0x00, 0x01, 0x02] @ [0x05, 0x00] @ [0x21, 0xE7])"
    by (simp add: pack_example)
next
  show "le_uint [0x21, 0xE7] = crc_hqx [0x00, 0x01, 0x02, 0x05, 0x00] 0x0000"
    by (simp add: crc_example)
next
  have "parse_loop ([0xA5, 0x5A, 0, 1, 2, 5, 0, 0x21, 0xE7] @ []) =
        ([], [Yielded \<lparr>command = 1, framing = SHORT_FORM, target = 0, data = [5, 0]\<rparr>], None)"
    by (subst parse_loop_packed[where f = "\<lparr>len_struct = Fmt_B, initial_crc_value = 0\<rparr>", OF _ _ _ _ _ _ pack_example])
       (simp_all add: short_format parse_loop_Nil)
  then show "parse PacketReceiver_init ([0xA5, 0x5A, 0x00, 0x01, 0x02] @ [0x05, 0x00] @ [0x21, 0xE7]) =
     ([], [Yielded \<lparr>command = 0x01, framing = SHORT_FORM, target = 0x00,
                    data = [0x05, 0x00]\<rparr>], None)"
    by (simp add: parse_def PacketReceiver_init_def)
qed

theorem pack_layout_witness:
  "\<exists>mk t c lf crc.
     pack \<lparr>command = 0, framing = LONG_FORM, target = 1, data = [7]\<rparr> =
       Inr (mk @ [t] @ [c] @ lf @ [7] @ crc) \<and>
     length mk = 2 \<and> le_uint mk = LONG_FORM \<and> uint t = 1 \<and> uint c = 0 \<and>
     length lf = 2 \<and> le_uint lf = 1 \<and> length crc = 2 \<and>
     le_uint crc = crc_hqx ([t] @ [c] @ lf @ [7]) 0xffff"
proof -
  let ?p = "\<lparr>command = 0, framing = LONG_FORM, target = 1, data = [7]\<rparr>"
  let ?f = "\<lparr>len_struct = Fmt_H, initial_crc_value = 0xffff\<rparr>"
  have h: "formats (framing ?p) = Some ?f \<and>
    0 \<le> target ?p \<and> target ?p < 256 \<and> 0 \<le> command ?p \<and> command ?p < 256 \<and>
    int (length (data ?p)) < 256 ^ code_size (len_struct ?f)"
    by (simp add: long_format)
  from pack_layout[of ?p ?f, THEN conjunct1, THEN mp, OF h]
  show ?thesis by (simp add: LONG_FORM_def SHORT_FORM_def)
qed

text \<open>
  C3, as the specification states it: the CRC would be CRC-16/ARC (reflected, polynomial
  0xA001). On the short form Packet with target 0, command 1 and payload 05 00 the CRC
  that \<^verbatim>\<open>pack\<close> appends, and that \<^verbatim>\<open>Packet.crc\<close> computes, is 0xE721; CRC-16/ARC of the same
  bytes from the same seed is 0x6CA3.
\<close>

theorem crc_is_not_arc:
  "pack \<lparr>command = 1, framing = SHORT_FORM, target = 0, data = [5, 0]\<rparr> =
     Inr ([0xA5, 0x5A] @ [0, 1, 2, 5, 0] @ [0x21, 0xE7]) \<and>
   le_uint [0x21, 0xE7] \<noteq> spec_crc16_arc [0, 1, 2, 5, 0] 0x0000 \<and>
   Packet_crc SHORT_FORM [0, 1, 2, 5, 0] \<noteq> Inr (spec_crc16_arc [0, 1, 2, 5, 0] 0x0000)"
  by (simp add: pack_example arc_example Packet_crc_def short_format crc_example)

text \<open>
  C3, amended: the CRC that \<^verbatim>\<open>pack\<close> appends, and that the receiver recomputes, is the CRC
  of \<^verbatim>\<open>binascii.crc_hqx\<close>: the CRC-CCITT polynomial 0x1021, most significant bit first,
  not reflected, no final XOR. It is computed over target byte, command byte, length field
  and payload, from the initial value 0xFFFF for the long form and 0x0000 for the short
  form.
\<close>

theorem crc_is_ccitt:
  assumes "formats (framing p) = Some f"
    and "0 \<le> target p \<and> target p < 256"
    and "0 \<le> command p \<and> command p < 256"
    and "int (length (data p)) < 256 ^ code_size (len_struct f)"
  shows "\<exists>body crc.
           body = [word_of_int (target p), word_of_int (command p)] @
                  le_bytes (code_size (len_struct f)) (int (length (data p))) @ data p \<and>
           pack p = Inr (le_bytes 2 (framing p) @ body @ crc) \<and>
           length crc = 2 \<and>
           le_uint crc =
             uint (foldl crc_update
                    (word_of_int (if framing p = LONG_FORM then 0xffff else 0x0000)) body) \<and>
           frame_calc_crc f (le_bytes 2 (framing p) @ body @ crc) = le_uint crc"
proof -
  from assms have v: "0 \<le> target p" "target p < 256" "0 \<le> command p" "command p < 256"
    by simp_all
  let ?lf = "le_bytes (code_size (len_struct f)) (int (length (data p)))"
  let ?body = "[word_of_int (target p), word_of_int (command p)] @ ?lf @ data p"
  let ?crc = "le_bytes 2 (crc_hqx ?body (initial_crc_value f))"
  have seed: "initial_crc_value f = (if framing p = LONG_FORM then 0xffff else 0x0000)"
    using formats_cases[OF assms(1)] by (auto simp: LONG_FORM_def SHORT_FORM_def)
  have 1: "pack p = Inr (le_bytes 2 (framing p) @ ?body @ ?crc)"
    using pack_eq[OF assms(1) v assms(4)] by (simp add: packed_body_def del: le_bytes.simps)
  have 2: "length ?crc = 2" by (simp add: length_le_bytes)
  have 3: "le_uint ?crc = crc_hqx ?body (initial_crc_value f)"
    using crc_hqx_range[of ?body "initial_crc_value f"]
    by (intro le_uint_le_bytes) simp_all
  have 4: "frame_calc_crc f (le_bytes 2 (framing p) @ ?body @ ?crc) =
           crc_hqx ?body (initial_crc_value f)"
    using frame_parts(4)[of "le_bytes 2 (framing p)" ?lf f "data p"
            "word_of_int (target p)" "word_of_int (command p)" ?crc] assms(4)
    by (simp add: length_le_bytes le_uint_le_bytes del: le_bytes.simps)
  show ?thesis
    apply (rule exI[of _ ?body], rule exI[of _ ?crc])
    using 1 2 3 4 by (simp add: crc_hqx_def seed del: le_bytes.simps)
qed

theorem crc_is_ccitt_witness:
  "\<exists>crc. pack \<lparr>command = 1, framing = SHORT_FORM, target = 0, data = [5, 0]\<rparr> =
            Inr (le_bytes 2 SHORT_FORM @ [0, 1, 2, 5, 0] @ crc) \<and>
         le_uint crc = uint (foldl crc_update 0 [0, 1, 2, 5, 0])"
proof -
  let ?p = "\<lparr>command = 1, framing = SHORT_FORM, target = 0, data = [5, 0]\<rparr>"
  let ?f = "\<lparr>len_struct = Fmt_B, initial_crc_value = 0\<rparr>"
  have "formats (framing ?p) = Some ?f" "0 \<le> target ?p \<and> target ?p < 256"
    "0 \<le> command ?p \<and> command ?p < 256"
    "int (length (data ?p)) < 256 ^ code_size (len_struct ?f)"
    by (simp_all add: short_format)
  from crc_is_ccitt[OF this] obtain body crc where
    "body = [word_of_int (target ?p), word_of_int (command ?p)] @
            le_bytes (code_size (len_struct ?f)) (int (length (data ?p))) @ data ?p"
    "pack ?p = Inr (le_bytes 2 (framing ?p) @ body @ crc)"
    "le_uint crc =
       uint (foldl crc_update
              (word_of_int (if framing ?p = LONG_FORM then 0xffff else 0x0000)) body)"
    by blast
  then have "pack ?p = Inr (le_bytes 2 SHORT_FORM @ [0, 1, 2, 5, 0] @ crc) \<and>
             le_uint crc = uint (foldl crc_update 0 [0, 1, 2, 5, 0])"
    by (simp add: SHORT_FORM_def LONG_FORM_def)
  then show ?thesis ..
qed

text \<open>
  C6. The bytes of a valid frame cut into chunks in any way, empty chunks included, and
  fed one by one to a fresh receiver: the calls together yield and print what a single
  call on the whole frame does, namely the one Packet, and leave the same buffer.
\<close>

theorem fragmentation_invariance:
  assumes "formats (framing p) = Some f"
    and "0 \<le> target p \<and> target p < 256"
    and "0 \<le> command p \<and> command p < 256"
    and "int (length (data p)) < 256 ^ code_size (len_struct f)"
    and "pack p = Inr bs" and "concat chunks = bs"
  shows "feed_chunks PacketReceiver_init chunks = parse PacketReceiver_init bs \<and>
         parse PacketReceiver_init bs = ([], [Yielded p], None)"
proof -
  from assms have v: "0 \<le> target p" "target p < 256" "0 \<le> command p" "command p < 256"
    by simp_all
  have "parse_loop (bs @ []) = ([], [Yielded p], None)"
    by (simp only: parse_loop_packed[OF assms(1) v assms(4,5)] parse_loop_Nil prod.case)
  moreover have "feed_chunks [] chunks = parse_loop ([] @ concat chunks)"
    by (rule feed_chunks_eq) (rule parse_loop_Nil)
  ultimately show ?thesis
    using assms(6) by (simp add: parse_def PacketReceiver_init_def)
qed

theorem fragmentation_invariance_witness:
  "feed_chunks PacketReceiver_init [[0xA5], [0x5A, 0, 1], [], [2, 5, 0, 0x21], [0xE7]] =
     ([], [Yielded \<lparr>command = 1, framing = SHORT_FORM, target = 0, data = [5, 0]\<rparr>], None)"
  using fragmentation_invariance[of
          "\<lparr>command = 1, framing = SHORT_FORM, target = 0, data = [5, 0]\<rparr>"
          "\<lparr>len_struct = Fmt_B, initial_crc_value = 0\<rparr>"
          "[0xA5, 0x5A, 0, 1, 2, 5, 0, 0x21, 0xE7]"
          "[[0xA5], [0x5A, 0, 1], [], [2, 5, 0, 0x21], [0xE7]]"]
  by (simp add: short_format pack_example)

text \<open>
  C8, as the specification states it: \<^verbatim>\<open>pack\<close> would not fail on a payload longer than the
  length field can hold. A short form Packet with 256 payload bytes: \<^verbatim>\<open>struct.pack\<close> raises
  \<^verbatim>\<open>struct.error\<close> on the length, and \<^verbatim>\<open>pack\<close> returns no bytes.
\<close>

theorem pack_long_payload_counterexample:
  "pack \<lparr>command = 1, framing = SHORT_FORM, target = 0, data = replicate 256 0\<rparr> =
     Inl StructError"
  by (simp add: pack_def short_format)

text \<open>
  C8, amended: on a Packet whose payload is longer than 255 bytes (short form) or 65535
  bytes (long form) \<^verbatim>\<open>pack\<close> raises \<^verbatim>\<open>struct.error\<close>; nothing is truncated and no bytes are
  returned.
\<close>

theorem pack_long_payload_fails:
  assumes "(framing p = SHORT_FORM \<and> 255 < length (data p)) \<or>
           (framing p = LONG_FORM \<and> 65535 < length (data p))"
  shows "pack p = Inl StructError"
proof -
  have "struct_pack [Fmt_B, Fmt_B] [target p, command p] = Inl StructError \<or>
        (\<exists>bs. struct_pack [Fmt_B, Fmt_B] [target p, command p] = Inr bs)"
    by (cases "struct_pack [Fmt_B, Fmt_B] [target p, command p]")
       (auto dest: struct_pack_error simp del: struct_pack.simps)
  then show ?thesis
  proof
    assume "struct_pack [Fmt_B, Fmt_B] [target p, command p] = Inl StructError"
    then show ?thesis by (simp add: pack_def del: struct_pack.simps)
  next
    assume "\<exists>bs. struct_pack [Fmt_B, Fmt_B] [target p, command p] = Inr bs"
    then obtain bs where bs: "struct_pack [Fmt_B, Fmt_B] [target p, command p] = Inr bs" ..
    from assms show ?thesis
    proof
      assume a: "framing p = SHORT_FORM \<and> 255 < length (data p)"
      then have "struct_pack [Fmt_B] [int (length (data p))] = Inl StructError" by simp
      with a bs show ?thesis
        by (simp add: pack_def short_format del: struct_pack.simps)
    next
      assume a: "framing p = LONG_FORM \<and> 65535 < length (data p)"
      then have "struct_pack [Fmt_H] [int (length (data p))] = Inl StructError" by simp
      with a bs show ?thesis
        by (simp add: pack_def long_format del: struct_pack.simps)
    qed
  qed
qed

theorem pack_long_payload_fails_witness:
  "pack \<lparr>command = 0, framing = LONG_FORM, target = 0, data = replicate 65536 7\<rparr> =
     Inl StructError"
  using pack_long_payload_fails[of
          "\<lparr>command = 0, framing = LONG_FORM, target = 0, data = replicate 65536 7\<rparr>"]
  by simp

section \<open>The claim about tampered frames\<close>

text \<open>
  C9, as the specification states it: a flipped bit anywhere in the header, the length
  field included, would make the receiver drop the frame with a CRC diagnostic and decode
  what follows. The frame A5 5A 00 01 02 05 00 21 E7 with bit 0 of its length byte
  flipped declares 3 payload bytes: alone in a fresh receiver it is neither dropped nor
  reported, the receiver waits for more bytes; followed by a valid frame, the receiver
  takes the first byte of that frame as part of the tampered one, prints one CRC
  diagnostic and never yields the valid frame.
\<close>

theorem tamper_length_field_counterexample:
  "pack \<lparr>command = 1, framing = SHORT_FORM, target = 0, data = [5, 0]\<rparr> =
     Inr [0xA5, 0x5A, 0, 1, 2, 5, 0, 0x21, 0xE7] \<and>
   flip_bit_at 4 0 [0xA5, 0x5A, 0, 1, 2, 5, 0, 0x21, 0xE7] =
     [0xA5, 0x5A, 0, 1, 3, 5, 0, 0x21, 0xE7] \<and>
   parse PacketReceiver_init [0xA5, 0x5A, 0, 1, 3, 5, 0, 0x21, 0xE7] =
     ([0xA5, 0x5A, 0, 1, 3, 5, 0, 0x21, 0xE7], [], None) \<and>
   parse PacketReceiver_init
     ([0xA5, 0x5A, 0, 1, 3, 5, 0, 0x21, 0xE7] @ [0xA5, 0x5A, 0, 1, 2, 5, 0, 0x21, 0xE7]) =
     ([0xE7], [Crc_mismatch 0xA5E7 0xEE3E], None)"
  using pack_example tamper_ex1 tamper_ex2 tamper_ex3 by simp

text \<open>
  C9, amended: in a valid frame, one flipped bit in the target byte (index 2), the command
  byte (index 3) or the payload (from index \<open>2 + header_len\<close>) makes the recomputed CRC
  differ from the CRC field. The loop cuts the whole frame off, prints the diagnostic with
  the received and the recomputed CRC and yields no Packet for it; the bytes that follow
  are parsed as a receiver without the tampered frame parses them.
\<close>

theorem tamper_detected:
  assumes "formats (framing p) = Some f"
    and "0 \<le> target p \<and> target p < 256"
    and "0 \<le> command p \<and> command p < 256"
    and "int (length (data p)) < 256 ^ code_size (len_struct f)"
    and "pack p = Inr bs"
    and "k = 2 \<or> k = 3 \<or> (2 + header_len f \<le> k \<and> k < 2 + header_len f + length (data p))"
    and "j < 8"
  shows "\<exists>rx calc.
           rx = le_uint (drop (length bs - 2) bs) \<and> calc \<noteq> rx \<and>
           parse_loop (flip_bit_at k j bs @ rest) =
             (case parse_loop rest of (b, es, r) \<Rightarrow> (b, Crc_mismatch rx calc # es, r))"
proof -
  from assms have v: "0 \<le> target p" "target p < 256" "0 \<le> command p" "command p < 256"
    by simp_all
  note f = assms(1) and n = assms(4)
  define mk where "mk = le_bytes 2 (framing p)"
  define lf where "lf = le_bytes (code_size (len_struct f)) (int (length (data p)))"
  define tb :: byte where "tb = word_of_int (target p)"
  define cb :: byte where "cb = word_of_int (command p)"
  define body where "body = tb # cb # lf @ data p"
  define crc where "crc = le_bytes 2 (crc_hqx body (initial_crc_value f))"
  have e: "bs = mk @ body @ crc"
    using assms(5) pack_eq[OF f v n]
    by (simp add: mk_def lf_def tb_def cb_def crc_def body_def packed_body_def
          del: le_bytes.simps)
  have lmk: "length mk = 2" by (simp add: mk_def length_le_bytes)
  have fm: "formats (le_uint mk) = Some f"
    using formats_range[OF f] f by (simp add: mk_def le_uint_le_bytes del: le_bytes.simps)
  have llf: "length lf = code_size (len_struct f)" by (simp add: lf_def length_le_bytes)
  have dl: "le_uint lf = int (length (data p))"
    using n by (simp add: lf_def le_uint_le_bytes)
  have lcrc: "length crc = 2" by (simp add: crc_def length_le_bytes)
  have cv: "le_uint crc = crc_hqx body (initial_crc_value f)"
    using crc_hqx_range[of body "initial_crc_value f"]
    by (simp add: crc_def le_uint_le_bytes del: le_bytes.simps)
  have lbody: "length body = header_len f + length (data p)"
    by (simp add: body_def llf header_len_eq)
  have rx: "le_uint (drop (length bs - 2) bs) = le_uint crc"
    by (simp add: e lmk lcrc)
  from assms(6) have k: "2 \<le> k" "k - 2 < length body"
    "k - 2 < 2 \<or> 2 + code_size (len_struct f) \<le> k - 2"
    by (auto simp: lbody header_len_eq)
  define i where "i = k - 2"
  have ki: "k = 2 + i" using k(1) by (simp add: i_def)
  have ib: "i < length body" using k(2) by (simp add: i_def)
  define body' where "body' = body[i := flip_bit j (body ! i)]"
  have fl: "flip_bit_at k j bs = mk @ body' @ crc"
    using ib by (simp add: flip_bit_at_def e ki lmk list_update_append nth_append body'_def)
  have "\<exists>t' c' dat'. body' = t' # c' # lf @ dat' \<and> length dat' = length (data p)"
  proof -
    from k(3) consider "i = 0" | "i = 1" | "2 + code_size (len_struct f) \<le> i"
      unfolding i_def by linarith
    then show ?thesis
    proof cases
      case 1
      then show ?thesis by (simp add: body'_def body_def)
    next
      case 2
      then show ?thesis by (simp add: body'_def body_def)
    next
      case 3
      then obtain m where m: "i = 2 + code_size (len_struct f) + m"
        using le_Suc_ex by blast
      have "body' = tb # cb # lf @ (data p)[m := flip_bit j (body ! i)]"
        by (simp add: body'_def body_def m list_update_append llf)
      then show ?thesis by simp
    qed
  qed
  then obtain t' c' dat' where b': "body' = t' # c' # lf @ dat'"
    and ld: "length dat' = length (data p)" by blast
  have bad: "le_uint crc \<noteq> crc_hqx body' (initial_crc_value f)"
    unfolding cv body'_def using crc_hqx_flipped[OF ib assms(7)] by metis
  have "parse_loop (mk @ body' @ crc @ rest) =
     (case parse_loop rest of
        (b, es, r) \<Rightarrow>
          (b, Crc_mismatch (le_uint crc) (crc_hqx body' (initial_crc_value f)) # es, r))"
    using dl ld by (intro frame_bad_crc[OF lmk fm b' llf _ lcrc bad]) simp
  then show ?thesis
    using bad by (intro exI[of _ "le_uint crc"] exI[of _ "crc_hqx body' (initial_crc_value f)"])
      (simp add: rx fl)
qed

theorem tamper_detected_witness:
  "\<exists>calc. calc \<noteq> 0xE721 \<and>
     parse_loop ([0xA5, 0x5A, 0, 1, 2, 4, 0, 0x21, 0xE7] @ [0xA5, 0x5A, 0, 1, 2, 5, 0, 0x21, 0xE7]) =
       ([], [Crc_mismatch 0xE721 calc,
             Yielded \<lparr>command = 1, framing = SHORT_FORM, target = 0, data = [5, 0]\<rparr>], None)"
proof -
  let ?p = "\<lparr>command = 1, framing = SHORT_FORM, target = 0, data = [5, 0]\<rparr>"
  let ?f = "\<lparr>len_struct = Fmt_B, initial_crc_value = 0\<rparr>"
  let ?F = "[0xA5, 0x5A, 0, 1, 2, 5, 0, 0x21, 0xE7] :: byte list"
  have h: "formats (framing ?p) = Some ?f" "0 \<le> target ?p \<and> target ?p < 256"
    "0 \<le> command ?p \<and> command ?p < 256"
    "int (length (data ?p)) < 256 ^ code_size (len_struct ?f)"
    by (simp_all add: short_format)
  have k: "5 = 2 \<or> 5 = 3 \<or>
           (2 + header_len ?f \<le> 5 \<and> 5 < 2 + header_len ?f + length (data ?p))"
    by (simp add: header_len_eq)
  have j: "(0::nat) < 8" by simp
  have v: "0 \<le> target ?p" "target ?p < 256" "0 \<le> command ?p" "command ?p < 256"
    by simp_all
  have r: "parse_loop (?F @ []) = ([], [Yielded ?p], None)"
    by (simp only: parse_loop_packed[OF h(1) v h(4) pack_example] parse_loop_Nil prod.case)
  from tamper_detected[OF h pack_example k j, of ?F] obtain rx calc where
    "rx = le_uint (drop (length ?F - 2) ?F)" "calc \<noteq> rx"
    "parse_loop (flip_bit_at 5 0 ?F @ ?F) =
       (case parse_loop ?F of (b, es, r) \<Rightarrow> (b, Crc_mismatch rx calc # es, r))"
    by blast
  then have "calc \<noteq> 0xE721 \<and>
     parse_loop ([0xA5, 0x5A, 0, 1, 2, 4, 0, 0x21, 0xE7] @ ?F) =
       ([], [Crc_mismatch 0xE721 calc, Yielded ?p], None)"
    using r by (simp add: flip_bit_at_def flip_bit_eq_xor)
  then show ?thesis ..
qed

end
